theory Spec2Isabelle
  imports Main "HOL-Library.Sublist"
begin

section \<open>Python string primitives used by cik\_lookup.py\<close>

text \<open>
  A Python \<open>str\<close> is modelled as a \<open>string\<close>, one \<open>char\<close> per code point (so the
  model covers texts whose code points are below 256; every marker the program looks for
  is ASCII). Indices are Python integers (\<open>int\<close>), since the program does arithmetic on
  the \<open>-1\<close> that \<open>str.find\<close> returns when nothing is found.
\<close>

text \<open>\<open>find_first sub s\<close>: the lowest offset at which \<open>sub\<close> occurs in \<open>s\<close>.\<close>

primrec find_first :: "'a list \<Rightarrow> 'a list \<Rightarrow> nat option" where
  "find_first sub [] = (if sub = [] then Some 0 else None)"
| "find_first sub (c # cs) =
     (if prefix sub (c # cs) then Some 0 else map_option Suc (find_first sub cs))"

text \<open>
  \<open>s.find(sub, start)\<close>: a negative \<open>start\<close> counts from the end (and is cut at 0), a
  \<open>start\<close> beyond the end finds nothing, and the result is \<open>-1\<close> when nothing is found.
  \<open>scan_pos s start\<close> is the offset at which the search begins.
\<close>

definition scan_pos :: "string \<Rightarrow> int \<Rightarrow> nat" where
  "scan_pos s start = nat (if start < 0 then max 0 (start + int (length s)) else start)"

definition py_find :: "string \<Rightarrow> string \<Rightarrow> int \<Rightarrow> int" where
  "py_find s sub start =
     (if length s < scan_pos s start then - 1
      else (case find_first sub (drop (scan_pos s start) s) of
              None \<Rightarrow> - 1
            | Some i \<Rightarrow> int (scan_pos s start + i)))"

text \<open>\<open>sub in s\<close>.\<close>

definition py_in :: "string \<Rightarrow> string \<Rightarrow> bool" where
  "py_in sub s = (find_first sub s \<noteq> None)"

text \<open>
  Slice bounds: a negative bound counts from the end, and every bound is cut to
  the range from 0 to the length.
\<close>

definition slice_bound :: "nat \<Rightarrow> int \<Rightarrow> nat" where
  "slice_bound n i = (if i < 0 then nat (max 0 (i + int n)) else min (nat i) n)"

text \<open>\<open>s[a:b]\<close> and \<open>s[a:]\<close>.\<close>

definition py_slice :: "string \<Rightarrow> int \<Rightarrow> int \<Rightarrow> string" where
  "py_slice s a b =
     (let lo = slice_bound (length s) a; hi = slice_bound (length s) b
      in take (hi - lo) (drop lo s))"

definition py_slice_from :: "string \<Rightarrow> int \<Rightarrow> string" where
  "py_slice_from s a = drop (slice_bound (length s) a) s"

text \<open>
  \<open>str.isspace\<close> on the code points below 256: the ASCII controls 9 to 13 and
  28 to 31, the space, NEL (133) and the no-break space (160).
\<close>

definition isspace :: "char \<Rightarrow> bool" where
  "isspace c = ((of_char c :: nat) \<in> {9, 10, 11, 12, 13, 28, 29, 30, 31, 32, 133, 160})"

text \<open>\<open>s.strip()\<close>.\<close>

definition py_strip :: "string \<Rightarrow> string" where
  "py_strip s = rev (dropWhile isspace (rev (dropWhile isspace s)))"

text \<open>\<open>s.split("\n")\<close>: one more piece than there are newlines, possibly empty ones.\<close>

definition newline :: char where
  "newline = CHR 0x0A"

primrec split_newline :: "string \<Rightarrow> string list" where
  "split_newline [] = [[]]"
| "split_newline (c # cs) =
     (if c = newline then [] # split_newline cs
      else (case split_newline cs of
              [] \<Rightarrow> [[c]]
            | l # ls \<Rightarrow> (c # l) # ls))"

text \<open>\<open>f"{s:<10}"\<close>: left-aligned in a field of at least \<open>w\<close> characters, never cut.\<close>

definition py_ljust :: "nat \<Rightarrow> string \<Rightarrow> string" where
  "py_ljust w s = s @ replicate (w - length s) CHR '' ''"

section \<open>The block extractor: extract\_pre\_sections\<close>

definition start_tag :: string where
  "start_tag = ''<pre>''"

definition end_tag :: string where
  "end_tag = ''</pre>''"

text \<open>
  The scan loop of \<open>extract_pre_sections\<close>, with the loop variables \<open>start\<close> and
  \<open>pre_sections\<close> as arguments. The \<open>break\<close> of the source is the inner \<open>else\<close>.
\<close>

function (domintros) extract_loop :: "string \<Rightarrow> int \<Rightarrow> string list \<Rightarrow> string list" where
  "extract_loop html start pre_sections =
     (if start \<noteq> - 1 then
        (let end_pos = py_find html end_tag start in
         if end_pos \<noteq> - 1 then
           extract_loop html (py_find html start_tag end_pos)
             (pre_sections @
                [py_strip (py_slice html (start + int (length start_tag)) end_pos)])
         else pre_sections)
      else pre_sections)"
  by pat_completeness auto

definition extract_pre_sections :: "string \<Rightarrow> string list" where
  "extract_pre_sections html = extract_loop html (py_find html start_tag 0) []"

section \<open>The record parser: the line loop of main\<close>

text \<open>The three literals of the line format; \<open>CHR 0x22\<close> is the double quote.\<close>

definition anchor_open :: string where
  "anchor_open = ''<a href='' @ [CHR 0x22]"

definition href_close :: string where
  "href_close = [CHR 0x22, CHR ''>'']"

definition anchor_close :: string where
  "anchor_close = ''</a>''"

definition start_link :: "string \<Rightarrow> int" where
  "start_link line = py_find line href_close 0 + 2"

definition end_link :: "string \<Rightarrow> int" where
  "end_link line = py_find line anchor_close 0"

definition cik :: "string \<Rightarrow> string" where
  "cik line = py_strip (py_slice line (start_link line) (end_link line))"

definition company_start :: "string \<Rightarrow> string" where
  "company_start line = py_strip (py_slice_from line (end_link line + 4))"

text \<open>
  The dictionary \<open>data\<close> keeps its keys in insertion order: an association list with
  distinct keys, where \<open>data[k] = v\<close> overwrites the value of a present key in place and
  appends an absent one.
\<close>

primrec dict_set :: "('k \<times> 'v) list \<Rightarrow> 'k \<Rightarrow> 'v \<Rightarrow> ('k \<times> 'v) list" where
  "dict_set [] k v = [(k, v)]"
| "dict_set (p # ps) k v = (if fst p = k then (k, v) # ps else p # dict_set ps k v)"

text \<open>The body of the line loop, and the loop over the lines of the table.\<close>

definition parse_line :: "(string \<times> string) list \<Rightarrow> string \<Rightarrow> (string \<times> string) list" where
  "parse_line data line =
     (if py_in anchor_open line then dict_set data (cik line) (company_start line)
      else data)"

definition parse_table :: "string \<Rightarrow> (string \<times> string) list" where
  "parse_table pre_table = foldl parse_line [] (split_newline pre_table)"

section \<open>The driver: the query loop of main\<close>

text \<open>
  What the request of one query comes to: the decoded body, or one of the three
  exceptions the \<open>try\<close> statement tells apart. The output is the list of the strings
  printed, one per call of \<open>print\<close>.
\<close>

datatype response =
    Body string
  | HTTPError int string
  | URLError string
  | OtherError string

text \<open>Decimal rendering of an integer, as an f-string prints \<open>e.code\<close>.\<close>

fun digits :: "nat \<Rightarrow> string" where
  "digits n =
     (if n < 10 then [char_of (48 + n)]
      else digits (n div 10) @ [char_of (48 + n mod 10)])"

declare digits.simps [simp del]

definition str_int :: "int \<Rightarrow> string" where
  "str_int i = (if i < 0 then CHR ''-'' # digits (nat (- i)) else digits (nat i))"

text \<open>\<open>quoted s\<close> is \<open>s\<close> between single quotes (\<open>CHR 0x27\<close>).\<close>

definition quoted :: "string \<Rightarrow> string" where
  "quoted s = [CHR 0x27] @ s @ [CHR 0x27]"

definition format_record :: "string \<Rightarrow> string \<Rightarrow> string" where
  "format_record c company = py_ljust 10 c @ '': '' @ company"

definition process_html :: "string \<Rightarrow> string \<Rightarrow> string list" where
  "process_html entry html_content =
     (let pre_sections = extract_pre_sections html_content in
      if length pre_sections > 1 then
        (let pre_table = pre_sections ! 1;
             data = parse_table pre_table
         in (newline # ''Results for '' @ quoted entry @ '':'')
            # map (\<lambda>(c, company). format_record c company) data)
      else [''Error: Missing expected table for '' @ quoted entry @ ''.''])"

definition process_entry :: "string \<Rightarrow> response \<Rightarrow> string list" where
  "process_entry entry r =
     (case r of
        Body html_content \<Rightarrow> process_html entry html_content
      | HTTPError code reason \<Rightarrow>
          [''HTTP Error for '' @ quoted entry @ '': '' @ str_int code @ '' '' @ reason]
      | URLError reason \<Rightarrow> [''URL Error for '' @ quoted entry @ '': '' @ reason]
      | OtherError msg \<Rightarrow> [''Unexpected error for '' @ quoted entry @ '': '' @ msg])"

text \<open>
  The request of one query can also raise an exception that is not derived from
  \<open>Exception\<close> (\<open>KeyboardInterrupt\<close>, \<open>SystemExit\<close>): none of the three handlers
  catches it, so it leaves the \<open>for\<close> loop and ends the run. \<open>Uncaught\<close> carries
  the name of such an exception.
\<close>

datatype outcome =
    Handled response
  | Uncaught string

text \<open>
  The query loop, over the entries in the order the iteration visits them; \<open>fetch\<close>
  gives the outcome of the request of each entry. The result is the output printed and
  the exception that ended the run, if one did.
\<close>

primrec main_loop :: "(string \<Rightarrow> outcome) \<Rightarrow> string list \<Rightarrow> string list \<times> string option" where
  "main_loop fetch [] = ([], None)"
| "main_loop fetch (entry # rest) =
     (case fetch entry of
        Uncaught exc \<Rightarrow> ([], Some exc)
      | Handled r \<Rightarrow>
          (process_entry entry r @ fst (main_loop fetch rest), snd (main_loop fetch rest)))"

section \<open>Documents made of blocks\<close>

text \<open>
  A text with its start and end markers in pairs, one after the other: some text, then for
  every pair the start marker, the content, the end marker and the text that follows, where
  none of these pieces contains a marker.
\<close>

definition block_text :: "string \<times> string \<Rightarrow> string" where
  "block_text b = start_tag @ fst b @ end_tag @ snd b"

definition document :: "string \<Rightarrow> (string \<times> string) list \<Rightarrow> string" where
  "document before bs = before @ concat (map block_text bs)"

definition marker_free :: "string \<Rightarrow> bool" where
  "marker_free s = (\<not> py_in start_tag s \<and> \<not> py_in end_tag s)"

section \<open>The specification's wording, for comparison\<close>

text \<open>
  The record line as the specification words it: the identifier in a field of 10
  characters, padded when it is shorter and truncated when it is longer (the padding on
  the right, as the specification's own scenario has the identifier left-aligned), then a
  colon, a space and the label.
\<close>

definition spec_field :: "string \<Rightarrow> string" where
  "spec_field c = (if length c < 10 then c @ replicate (10 - length c) CHR '' '' else take 10 c)"

definition spec_record_line :: "string \<Rightarrow> string \<Rightarrow> string" where
  "spec_record_line c company = spec_field c @ '': '' @ company"

text \<open>
  The identifier as the specification words it: the text that starts two characters after
  the first occurrence of the double quote and \<open>>\<close> that follows the anchor open, up to
  the first occurrence of \<open></a>\<close> after that.
\<close>

definition spec_cik :: "string \<Rightarrow> string" where
  "spec_cik line =
     (let a = py_find line anchor_open 0;
          q = py_find line href_close (a + int (length anchor_open));
          e = py_find line anchor_close (q + 2)
      in py_slice line (q + 2) e)"

section \<open>Example inputs\<close>

text \<open>Documents with one block, with two blocks, and with an identifier of 11 characters.\<close>

definition doc_one_block :: string where
  "doc_one_block = ''<html><pre>CIK Code   Company Name</pre></html>''"

definition doc_two_blocks :: string where
  "doc_two_blocks =
     ''<pre>head</pre><pre><a href='' @ [CHR 0x22] @ ''u'' @ [CHR 0x22] @ ''>123</a>  Example Co'' @ [newline]
     @ ''no anchor here'' @ [newline]
     @ ''<a href='' @ [CHR 0x22] @ ''v'' @ [CHR 0x22] @ ''>45</a> Other</pre>''"

definition doc_long_cik :: string where
  "doc_long_cik =
     ''<pre>head</pre><pre><a href='' @ [CHR 0x22] @ ''u'' @ [CHR 0x22] @ ''>12345678901</a> X</pre>''"

text \<open>
  Requests: one where the query Pulse gets the status 404, and one where the run is
  interrupted during the query Pulse; every other query gets the document with one block.
\<close>

definition fetch_http_error :: "string \<Rightarrow> outcome" where
  "fetch_http_error e =
     (if e = ''Pulse'' then Handled (HTTPError 404 ''Not Found'') else Handled (Body doc_one_block))"

definition fetch_interrupted :: "string \<Rightarrow> outcome" where
  "fetch_interrupted e =
     (if e = ''Pulse'' then Uncaught ''KeyboardInterrupt'' else Handled (Body doc_one_block))"

text \<open>The blocks of a document: the content and the text that follows it.\<close>

definition doc_blocks :: "(string \<times> string) list" where
  "doc_blocks = [('' CIK  Name '', ''<hr>''), (''12'' @ [newline] @ ''34 '', ''</html>'')]"

text \<open>A table in which the identifier 123 comes twice, with two labels.\<close>

definition table_dup :: string where
  "table_dup =
     ''<a href='' @ [CHR 0x22] @ ''u'' @ [CHR 0x22] @ ''>123</a> First Co'' @ [newline]
     @ ''<a href='' @ [CHR 0x22] @ ''v'' @ [CHR 0x22] @ ''>45</a> Other'' @ [newline]
     @ ''<a href='' @ [CHR 0x22] @ ''w'' @ [CHR 0x22] @ ''>123</a> Second Co''"

text \<open>
  Lines of a table: a regular one, one without \<open></a>\<close>, one without the double quote
  and \<open>>\<close>, one with spaces around the identifier, and one where the double quote and
  \<open>>\<close> come before the anchor.
\<close>

definition line_regular :: string where
  "line_regular = ''<a href='' @ [CHR 0x22] @ ''x'' @ [CHR 0x22] @ ''>123</a>  Example Co''"

definition line_no_close :: string where
  "line_no_close = ''<a href='' @ [CHR 0x22] @ ''x'' @ [CHR 0x22] @ ''> 7 y''"

definition line_no_href_close :: string where
  "line_no_href_close = ''<a href='' @ [CHR 0x22] @ ''x> 99 </a> Some Co''"

definition line_padded :: string where
  "line_padded = ''<a href='' @ [CHR 0x22] @ ''x'' @ [CHR 0x22] @ ''> 123 </a> Example Co''"

definition line_early_quote :: string where
  "line_early_quote = [CHR 0x22] @ ''><a href='' @ [CHR 0x22] @ ''u'' @ [CHR 0x22] @ ''>123</a> Co''"

section \<open>Facts about the string primitives\<close>

lemma find_first_Some:
  "find_first sub s = Some i \<Longrightarrow>
     i \<le> length s \<and> prefix sub (drop i s) \<and> (\<forall>j<i. \<not> prefix sub (drop j s))"
proof (induction s arbitrary: i)
  case Nil
  then show ?case by (simp split: if_splits)
next
  case (Cons c cs)
  show ?case
  proof (cases "prefix sub (c # cs)")
    case True
    with Cons.prems show ?thesis by simp
  next
    case False
    with Cons.prems obtain k where k: "find_first sub cs = Some k" "i = Suc k"
      by auto
    from Cons.IH [OF k(1)] False k(2) show ?thesis
      by (auto simp: less_Suc_eq_0_disj)
  qed
qed

lemma find_first_None:
  "find_first sub s = None \<Longrightarrow> \<not> prefix sub (drop j s)"
proof (induction s arbitrary: j)
  case Nil
  then show ?case by (simp split: if_splits)
next
  case (Cons c cs)
  then show ?case by (cases j) (auto split: if_splits)
qed

lemma find_first_end_in_start:
  "find_first end_tag (start_tag @ x) = map_option (\<lambda>i. i + 5) (find_first end_tag x)"
  by (simp add: start_tag_def end_tag_def prefix_Cons option.map_comp comp_def eval_nat_numeral)

lemma find_first_start_in_end:
  "find_first start_tag (end_tag @ x) = map_option (\<lambda>i. i + 6) (find_first start_tag x)"
  by (simp add: start_tag_def end_tag_def prefix_Cons option.map_comp comp_def eval_nat_numeral)

lemma scan_pos_nonneg [simp]: "0 \<le> k \<Longrightarrow> scan_pos s k = nat k"
  by (simp add: scan_pos_def)

lemma py_find_found:
  assumes "py_find s sub start \<noteq> - 1"
  obtains i where "find_first sub (drop (scan_pos s start) s) = Some i"
    "py_find s sub start = int (scan_pos s start + i)"
    "scan_pos s start + i \<le> length s"
    "prefix sub (drop (scan_pos s start + i) s)"
proof -
  from assms obtain i where i: "scan_pos s start \<le> length s"
    "find_first sub (drop (scan_pos s start) s) = Some i"
    "py_find s sub start = int (scan_pos s start + i)"
    by (auto simp: py_find_def split: if_splits option.splits)
  from find_first_Some [OF i(2)] i(1)
  have "scan_pos s start + i \<le> length s" "prefix sub (drop (scan_pos s start + i) s)"
    by (auto simp: add.commute)
  with i that show thesis by blast
qed

lemma scan_step_decreases:
  assumes "start \<noteq> - 1" "py_find html end_tag start \<noteq> - 1"
    "py_find html start_tag (py_find html end_tag start) \<noteq> - 1"
  shows "scan_pos html start < scan_pos html (py_find html start_tag (py_find html end_tag start))"
    and "scan_pos html (py_find html start_tag (py_find html end_tag start)) \<le> length html"
proof -
  let ?e = "py_find html end_tag start"
  let ?s = "py_find html start_tag ?e"
  let ?p = "scan_pos html start"
  from assms(2) obtain i where i: "?e = int (?p + i)" "prefix end_tag (drop (?p + i) html)"
    by (rule py_find_found)
  from assms(3) obtain k where k: "find_first start_tag (drop (scan_pos html ?e) html) = Some k"
    "?s = int (scan_pos html ?e + k)" "scan_pos html ?e + k \<le> length html"
    by (rule py_find_found)
  from i(1) have sp: "scan_pos html ?e = ?p + i"
    by simp
  from i(2) obtain y where "drop (?p + i) html = end_tag @ y"
    by (auto simp: prefix_def)
  with k(1) sp have "6 \<le> k"
    by (auto simp: find_first_start_in_end)
  with k(2,3) sp show "?p < scan_pos html ?s" "scan_pos html ?s \<le> length html"
    by simp_all
qed

lemma extract_loop_total: "extract_loop_dom (html, start, acc)"
proof (induction "if start = - 1 then 0 else 2 + length html - scan_pos html start"
    arbitrary: start acc rule: less_induct)
  case less
  show ?case
  proof (rule extract_loop.domintros)
    fix e
    assume a: "start \<noteq> - 1" "py_find html end_tag start \<noteq> - 1"
    let ?s = "py_find html start_tag (py_find html end_tag start)"
    from a(2) obtain i where "scan_pos html start + i \<le> length html"
      by (rule py_find_found)
    then have pos: "0 < 2 + length html - scan_pos html start" by simp
    show "extract_loop_dom (html, ?s,
       acc @ [py_strip (py_slice html (start + int (length start_tag)) (py_find html end_tag start))])"
    proof (rule less)
      show "(if ?s = - 1 then 0 else 2 + length html - scan_pos html ?s)
            < (if start = - 1 then 0 else 2 + length html - scan_pos html start)"
        using a pos scan_step_decreases [OF a] by (auto intro: diff_less_mono2)
    qed
  qed
qed

termination extract_loop
  by (rule allI) (auto simp: extract_loop_total)

declare extract_loop.simps [simp del]

lemma py_find_0: "py_find s sub 0 = (case find_first sub s of None \<Rightarrow> - 1 | Some i \<Rightarrow> int i)"
  by (simp add: py_find_def split: option.splits)

lemma py_find_0_absent: "\<not> py_in sub s \<Longrightarrow> py_find s sub 0 = - 1"
  by (simp add: py_find_0 py_in_def)

lemma py_in_length: "py_in sub s \<Longrightarrow> length sub \<le> length s"
proof -
  assume "py_in sub s"
  then obtain i where "find_first sub s = Some i" by (auto simp: py_in_def)
  from find_first_Some [OF this] have "prefix sub (drop i s)" by simp
  then have "length sub \<le> length (drop i s)" by (rule prefix_length_le)
  then show ?thesis by simp
qed

lemma find_first_drop:
  "find_first sub s = Some i \<Longrightarrow> k \<le> i \<Longrightarrow> find_first sub (drop k s) = Some (i - k)"
proof (induction s arbitrary: i k)
  case Nil
  then show ?case by (simp split: if_splits)
next
  case (Cons c cs)
  show ?case
  proof (cases k)
    case 0
    with Cons.prems show ?thesis by simp
  next
    case (Suc k')
    with Cons.prems obtain i' where i': "i = Suc i'" "find_first sub cs = Some i'" "k' \<le> i'"
      by (auto split: if_splits)
    from Cons.IH [OF i'(2,3)] Suc i'(1) show ?thesis by simp
  qed
qed

lemma py_find_from_before:
  assumes "0 \<le> k" and "k \<le> py_find s sub 0"
  shows "py_find s sub k = py_find s sub 0"
proof -
  from assms obtain i where i: "find_first sub s = Some i" "py_find s sub 0 = int i"
    by (auto simp: py_find_0 split: option.splits)
  from find_first_Some [OF i(1)] have "i \<le> length s" by simp
  moreover from assms i(2) have "nat k \<le> i" by simp
  moreover from find_first_drop [OF i(1) this] have "find_first sub (drop (nat k) s) = Some (i - nat k)" .
  ultimately show ?thesis
    using assms(1) i(2) by (simp add: py_find_def)
qed

lemma start_link_pos: "1 \<le> start_link line"
  by (auto simp: start_link_def py_find_0 split: option.splits)

section \<open>Facts about the markers and the scan loop\<close>

lemma prefix_across:
  assumes "w \<noteq> []" and "hd w \<notin> set (tl sub)" and "y \<noteq> []"
  shows "prefix sub (y @ w) \<longleftrightarrow> prefix sub y"
proof
  assume "prefix sub (y @ w)"
  then consider "prefix sub y" | us where "sub = y @ us" "prefix us w"
    by (auto simp: prefix_append)
  then show "prefix sub y"
  proof cases
    case 1
    then show ?thesis .
  next
    case 2
    show ?thesis
    proof (cases us)
      case Nil
      with 2 show ?thesis by simp
    next
      case (Cons u us')
      with 2(2) assms(1) have "u = hd w"
        by (cases w) simp_all
      moreover from 2(1) Cons assms(3) have "u \<in> set (tl sub)"
        by (cases y) simp_all
      ultimately show ?thesis using assms(2) by simp
    qed
  qed
next
  assume "prefix sub y"
  then show "prefix sub (y @ w)" by simp
qed

lemma find_first_append:
  assumes "w \<noteq> []" and "hd w \<notin> set (tl sub)" and "sub \<noteq> []"
  shows "find_first sub (x @ w) =
     (case find_first sub x of
        Some i \<Rightarrow> Some i
      | None \<Rightarrow> map_option (\<lambda>k. length x + k) (find_first sub w))"
proof (induction x)
  case Nil
  from assms(3) show ?case by (cases "find_first sub w") simp_all
next
  case (Cons c cs)
  have "prefix sub ((c # cs) @ w) \<longleftrightarrow> prefix sub (c # cs)"
    using assms(1,2) by (rule prefix_across) simp
  with Cons show ?case
    by (cases "find_first sub w") (auto split: option.splits)
qed

lemma py_find_nat:
  "py_find s sub (int p) =
     (if length s < p then - 1
      else case find_first sub (drop p s) of None \<Rightarrow> - 1 | Some i \<Rightarrow> int (p + i))"
  by (simp add: py_find_def split: option.splits)

lemma py_slice_nat:
  "a \<le> b \<Longrightarrow> b \<le> length s \<Longrightarrow> py_slice s (int a) (int b) = take (b - a) (drop a s)"
  by (simp add: py_slice_def slice_bound_def Let_def min_def)

lemma extract_loop_stop [simp]: "extract_loop html (- 1) acc = acc"
  by (simp add: extract_loop.simps)

lemma extract_loop_nat:
  "extract_loop html (int p) acc =
     (case (if length html < p then None else find_first end_tag (drop p html)) of
        None \<Rightarrow> acc
      | Some i \<Rightarrow> extract_loop html (py_find html start_tag (int (p + i)))
           (acc @ [py_strip (py_slice html (int (p + 5)) (int (p + i)))]))"
  by (subst extract_loop.simps) (simp add: py_find_nat start_tag_def Let_def split: option.splits)

text \<open>Neither marker can begin inside the other or inside itself.\<close>

lemma find_first_before_marker:
  assumes "sub = start_tag \<or> sub = end_tag" and "w \<noteq> []" and "hd w = CHR ''<''"
  shows "find_first sub (x @ w) =
     (case find_first sub x of
        Some i \<Rightarrow> Some i
      | None \<Rightarrow> map_option (\<lambda>k. length x + k) (find_first sub w))"
  using assms by (intro find_first_append) (auto simp: start_tag_def end_tag_def)

lemma length_start_tag [simp]: "length start_tag = 5"
  by (simp add: start_tag_def)

lemma length_end_tag [simp]: "length end_tag = 6"
  by (simp add: end_tag_def)

lemma blocks_start: "bs \<noteq> [] \<Longrightarrow> \<exists>r. concat (map block_text bs) = start_tag @ r"
  by (cases bs) (simp_all add: block_text_def)

lemma find_start_in_gap:
  assumes "\<not> py_in start_tag g"
  shows "find_first start_tag (g @ concat (map block_text bs)) =
           (if bs = [] then None else Some (length g))"
proof (cases bs)
  case Nil
  with assms show ?thesis by (simp add: py_in_def)
next
  case (Cons b bs')
  then obtain r where r: "concat (map block_text bs) = start_tag @ r"
    using blocks_start [of bs] by auto
  have "find_first start_tag (g @ start_tag @ r) = Some (length g)"
    using assms
    by (subst find_first_before_marker) (simp_all add: py_in_def, simp_all add: start_tag_def)
  with r Cons show ?thesis by simp
qed

lemma find_end_after_content:
  assumes "\<not> py_in end_tag c"
  shows "find_first end_tag (start_tag @ c @ end_tag @ r) = Some (5 + length c)"
proof -
  have "find_first end_tag (c @ end_tag @ r) = Some (length c)"
    using assms
    by (subst find_first_before_marker) (simp_all add: py_in_def, simp_all add: end_tag_def)
  then show ?thesis by (simp add: find_first_end_in_start)
qed

lemma extract_loop_blocks:
  assumes "\<forall>b \<in> set (b0 # bs). \<not> py_in end_tag (fst b) \<and> \<not> py_in start_tag (snd b)"
  shows "extract_loop (before @ concat (map block_text (b0 # bs))) (int (length before)) acc =
           acc @ map (\<lambda>b. py_strip (fst b)) (b0 # bs)"
  using assms
proof (induction bs arbitrary: before b0 acc)
  case Nil
  obtain c g where b0: "b0 = (c, g)" by (cases b0)
  let ?html = "before @ start_tag @ c @ end_tag @ g"
  from Nil b0 have c: "\<not> py_in end_tag c" and g: "\<not> py_in start_tag g" by auto
  have html: "before @ concat (map block_text [b0]) = ?html"
    by (simp add: b0 block_text_def)
  have e: "(if length ?html < length before then None
            else find_first end_tag (drop (length before) ?html)) = Some (5 + length c)"
    using find_end_after_content [OF c, of g] by simp
  have "drop (length before + (5 + length c)) ?html = end_tag @ g"
    by simp
  then have s: "py_find ?html start_tag (int (length before + (5 + length c))) = - 1"
    using find_start_in_gap [OF g, of "[]"]
    by (subst py_find_nat) (simp add: find_first_start_in_end)
  have sl: "py_slice ?html (int (length before + 5)) (int (length before + (5 + length c))) = c"
    by (subst py_slice_nat) simp_all
  have "extract_loop ?html (int (length before)) acc = acc @ [py_strip c]"
    by (subst extract_loop_nat) (simp only: e s sl option.case extract_loop_stop)
  then show ?case
    unfolding html by (simp add: b0)
next
  case (Cons b1 bs)
  obtain c g where b0: "b0 = (c, g)" by (cases b0)
  let ?rest = "concat (map block_text (b1 # bs))"
  let ?html = "before @ start_tag @ c @ end_tag @ g @ ?rest"
  let ?before = "before @ start_tag @ c @ end_tag @ g"
  from Cons.prems b0 have c: "\<not> py_in end_tag c" and g: "\<not> py_in start_tag g" by auto
  have html: "before @ concat (map block_text (b0 # b1 # bs)) = ?html"
    by (simp add: b0 block_text_def)
  have html': "?before @ ?rest = ?html"
    by simp
  have e: "(if length ?html < length before then None
            else find_first end_tag (drop (length before) ?html)) = Some (5 + length c)"
    using find_end_after_content [OF c, of "g @ ?rest"] by simp
  have "drop (length before + (5 + length c)) ?html = end_tag @ g @ ?rest"
    by simp
  then have s: "py_find ?html start_tag (int (length before + (5 + length c))) = int (length ?before)"
    using find_start_in_gap [OF g, of "b1 # bs"]
    by (subst py_find_nat) (simp add: find_first_start_in_end)
  have sl: "py_slice ?html (int (length before + 5)) (int (length before + (5 + length c))) = c"
    by (subst py_slice_nat) simp_all
  have ih: "extract_loop (?before @ ?rest) (int (length ?before)) (acc @ [py_strip c]) =
      (acc @ [py_strip c]) @ map (\<lambda>b. py_strip (fst b)) (b1 # bs)"
    using Cons.prems by (intro Cons.IH) simp
  have "extract_loop ?html (int (length before)) acc =
        extract_loop ?html (int (length ?before)) (acc @ [py_strip c])"
    by (subst extract_loop_nat) (simp only: e s sl option.case)
  with ih show ?case
    unfolding html html' by (simp add: b0)
qed

lemma extract_document:
  assumes "\<not> py_in start_tag before"
    and "\<forall>b \<in> set bs. \<not> py_in end_tag (fst b) \<and> \<not> py_in start_tag (snd b)"
  shows "extract_pre_sections (document before bs) = map (\<lambda>b. py_strip (fst b)) bs"
proof (cases bs)
  case Nil
  with assms(1) show ?thesis
    by (simp add: extract_pre_sections_def document_def py_find_0_absent)
next
  case (Cons b0 bs')
  have "py_find (document before bs) start_tag 0 = int (length before)"
    using find_start_in_gap [OF assms(1), of bs] Cons
    by (simp add: py_find_0 document_def)
  with extract_loop_blocks [of b0 bs' before "[]"] assms(2) Cons show ?thesis
    by (simp add: extract_pre_sections_def document_def)
qed

lemma py_slice_append:
  "b \<le> length s \<Longrightarrow> py_slice (s @ w) (int a) (int b) = py_slice s (int a) (int b)"
  by (auto simp: py_slice_def slice_bound_def Let_def min_def)

lemma find_end_unclosed:
  assumes "\<not> py_in end_tag rest"
  shows "find_first end_tag (x @ start_tag @ rest) = find_first end_tag x"
proof -
  from assms have "find_first end_tag (start_tag @ rest) = None"
    by (simp add: find_first_end_in_start py_in_def)
  then show ?thesis
    by (subst find_first_before_marker) (simp_all add: start_tag_def split: option.splits)
qed

lemma find_start_unclosed:
  "find_first start_tag (x @ start_tag @ rest) =
     (case find_first start_tag x of Some i \<Rightarrow> Some i | None \<Rightarrow> Some (length x))"
proof -
  have "find_first start_tag (start_tag @ rest) = Some 0"
    by (simp add: start_tag_def)
  then show ?thesis
    by (subst find_first_before_marker) (simp_all add: start_tag_def split: option.splits)
qed

lemma extract_loop_unclosed:
  assumes "\<not> py_in end_tag rest" and "p \<le> length html"
  shows "extract_loop (html @ start_tag @ rest) (int p) acc = extract_loop html (int p) acc"
  using assms(2)
proof (induction "length html - p" arbitrary: p acc rule: less_induct)
  case less
  let ?full = "html @ start_tag @ rest"
  from less.prems have d: "drop p ?full = drop p html @ start_tag @ rest"
    by simp
  show ?case
  proof (cases "find_first end_tag (drop p html)")
    case None
    with less.prems d show ?thesis
      by (subst (1 2) extract_loop_nat) (simp add: find_end_unclosed [OF assms(1)])
  next
    case (Some i)
    from find_first_Some [OF Some] have "prefix end_tag (drop (p + i) html)"
      by (simp add: add.commute)
    then obtain y where y: "drop (p + i) html = end_tag @ y"
      by (auto simp: prefix_def)
    then have "length (drop (p + i) html) = 6 + length y"
      by simp
    then have len: "p + i + 6 + length y = length html"
      by simp
    let ?acc = "acc @ [py_strip (py_slice html (int (p + 5)) (int (p + i)))]"
    from len have sl: "py_slice ?full (int (p + 5)) (int (p + i)) = py_slice html (int (p + 5)) (int (p + i))"
      by (intro py_slice_append) simp
    from len have d': "drop (p + i) ?full = end_tag @ y @ start_tag @ rest"
      using y by simp
    from less.prems Some
    have e: "(if length ?full < p then None else find_first end_tag (drop p ?full)) = Some i"
      and e': "(if length html < p then None else find_first end_tag (drop p html)) = Some i"
      by (simp_all add: find_end_unclosed [OF assms(1)])
    have lhs: "extract_loop ?full (int p) acc =
        extract_loop ?full (py_find ?full start_tag (int (p + i))) ?acc"
      by (subst extract_loop_nat) (simp only: e option.case sl)
    have rhs: "extract_loop html (int p) acc =
        extract_loop html (py_find html start_tag (int (p + i))) ?acc"
      by (subst extract_loop_nat) (simp only: e' option.case)
    show ?thesis
    proof (cases "find_first start_tag y")
      case None
      from len None have a: "py_find html start_tag (int (p + i)) = - 1"
        by (subst py_find_nat) (simp add: y find_first_start_in_end)
      from len None have b: "py_find ?full start_tag (int (p + i)) = int (length html)"
        by (subst py_find_nat) (simp add: y find_first_start_in_end find_start_unclosed)
      have "extract_loop ?full (int (length html)) ?acc = ?acc"
        using assms(1)
        by (subst extract_loop_nat) (simp add: find_first_end_in_start py_in_def)
      with lhs rhs a b show ?thesis by simp
    next
      case (Some k)
      from find_first_Some [OF Some] have k: "k \<le> length y" by simp
      let ?p = "p + i + (k + 6)"
      from len Some have a: "py_find html start_tag (int (p + i)) = int ?p"
        by (subst py_find_nat) (simp add: y find_first_start_in_end)
      from len Some have b: "py_find ?full start_tag (int (p + i)) = int ?p"
        by (subst py_find_nat) (simp add: y find_first_start_in_end find_start_unclosed)
      from len k have "length html - ?p < length html - p" "?p \<le> length html"
        by simp_all
      then have "extract_loop ?full (int ?p) ?acc = extract_loop html (int ?p) ?acc"
        by (rule less.hyps)
      with lhs rhs a b show ?thesis by simp
    qed
  qed
qed

lemma extract_unclosed:
  assumes "\<not> py_in end_tag rest"
  shows "extract_pre_sections (before @ start_tag @ rest) = extract_pre_sections before"
proof (cases "find_first start_tag before")
  case None
  then have a: "py_find before start_tag 0 = - 1"
    and b: "py_find (before @ start_tag @ rest) start_tag 0 = int (length before)"
    by (simp_all add: py_find_0 find_start_unclosed)
  have "extract_loop (before @ start_tag @ rest) (int (length before)) [] = []"
    using assms
    by (subst extract_loop_nat) (simp add: find_first_end_in_start py_in_def)
  with a b show ?thesis
    by (simp add: extract_pre_sections_def)
next
  case (Some i)
  then have a: "py_find before start_tag 0 = int i"
    and b: "py_find (before @ start_tag @ rest) start_tag 0 = int i"
    by (simp_all add: py_find_0 find_start_unclosed)
  from find_first_Some [OF Some] have "i \<le> length before" by simp
  from extract_loop_unclosed [OF assms this] a b show ?thesis
    by (simp add: extract_pre_sections_def)
qed

section \<open>Facts about the dictionary and the line loop\<close>

lemma map_of_dict_set: "map_of (dict_set d k v) = (map_of d)(k \<mapsto> v)"
  by (induction d) (auto simp: fun_eq_iff)

lemma keys_dict_set: "fst ` set (dict_set d k v) = insert k (fst ` set d)"
  by (induction d) auto

lemma distinct_dict_set: "distinct (map fst d) \<Longrightarrow> distinct (map fst (dict_set d k v))"
  by (induction d) (auto simp: keys_dict_set)

lemma distinct_parse_line: "distinct (map fst d) \<Longrightarrow> distinct (map fst (parse_line d l))"
  by (simp add: parse_line_def distinct_dict_set)

lemma distinct_foldl_parse_line:
  "distinct (map fst d) \<Longrightarrow> distinct (map fst (foldl parse_line d ls))"
  by (induction ls arbitrary: d) (simp_all add: distinct_parse_line)

lemma map_of_foldl_parse_line:
  "map_of (foldl parse_line d ls) k =
     (case filter (\<lambda>l. py_in anchor_open l \<and> cik l = k) ls of
        [] \<Rightarrow> map_of d k
      | x # xs \<Rightarrow> Some (company_start (last (x # xs))))"
proof (induction ls arbitrary: d)
  case Nil
  show ?case by simp
next
  case (Cons l ls)
  show ?case
    unfolding foldl_Cons Cons.IH
    by (auto simp: parse_line_def map_of_dict_set split: list.splits)
qed

lemma one_entry_per_key:
  "distinct (map fst d) \<Longrightarrow> map_of d k = Some v \<Longrightarrow> length (filter (\<lambda>p. fst p = k) d) = 1"
proof (induction d)
  case Nil
  then show ?case by simp
next
  case (Cons p d)
  show ?case
  proof (cases "fst p = k")
    case True
    with Cons.prems have "filter (\<lambda>p. fst p = k) d = []"
      by (auto simp: filter_empty_conv image_iff)
    with True show ?thesis by simp
  next
    case False
    with Cons show ?thesis by (cases p) auto
  qed
qed

section \<open>Blocks are extracted in order\<close>

text \<open>
  Claim C1. For a text made of N pairs of a start and an end marker, one after the other,
  with no marker anywhere else, \<open>extract_pre_sections\<close> returns exactly N elements, and
  the k-th is the whitespace-trimmed text between the k-th start marker and its end marker.
\<close>

theorem blocks_in_order:
  assumes "marker_free before"
    and "\<forall>b \<in> set bs. marker_free (fst b) \<and> marker_free (snd b)"
  shows "extract_pre_sections (document before bs) = map (\<lambda>b. py_strip (fst b)) bs \<and>
         length (extract_pre_sections (document before bs)) = length bs \<and>
         (\<forall>k < length bs.
            extract_pre_sections (document before bs) ! k = py_strip (fst (bs ! k)))"
proof -
  from assms have "extract_pre_sections (document before bs) = map (\<lambda>b. py_strip (fst b)) bs"
    by (intro extract_document) (auto simp: marker_free_def)
  then show ?thesis by simp
qed

theorem blocks_in_order_witness:
  "marker_free ''<html>'' \<and>
   list_all (\<lambda>b. marker_free (fst b) \<and> marker_free (snd b)) doc_blocks \<and>
   document ''<html>'' doc_blocks =
     ''<html><pre> CIK  Name </pre><hr><pre>12'' @ [newline] @ ''34 </pre></html>'' \<and>
   extract_pre_sections (document ''<html>'' doc_blocks) = [''CIK  Name'', ''12'' @ [newline] @ ''34'']"
proof -
  have l: "list_all (\<lambda>b. marker_free (fst b) \<and> marker_free (snd b)) doc_blocks"
    by code_simp
  have h: "marker_free ''<html>''"
    "\<forall>b \<in> set doc_blocks. marker_free (fst b) \<and> marker_free (snd b)"
    using l by (code_simp, simp add: list_all_iff)
  have d: "document ''<html>'' doc_blocks =
     ''<html><pre> CIK  Name </pre><hr><pre>12'' @ [newline] @ ''34 </pre></html>''"
    by code_simp
  have v: "map (\<lambda>b. py_strip (fst b)) doc_blocks = [''CIK  Name'', ''12'' @ [newline] @ ''34'']"
    by code_simp
  from blocks_in_order [OF h] h(1) l d show ?thesis
    unfolding v by blast
qed

section \<open>A start marker without an end marker\<close>

text \<open>
  Claim C5. When no end marker follows a start marker, \<open>extract_pre_sections\<close> returns
  what it returns on the text before that start marker: the blocks completed before it
  (for a text of marker-free pairs followed by such a start marker, the trimmed contents
  of the pairs). A text without a start marker gives the empty list.
\<close>

theorem unclosed_start_marker:
  "(\<not> py_in end_tag rest \<longrightarrow>
      extract_pre_sections (before @ start_tag @ rest) = extract_pre_sections before) \<and>
   (marker_free before \<and> (\<forall>b \<in> set bs. marker_free (fst b) \<and> marker_free (snd b)) \<and>
    \<not> py_in end_tag rest \<longrightarrow>
      extract_pre_sections (document before bs @ start_tag @ rest) =
        map (\<lambda>b. py_strip (fst b)) bs) \<and>
   (\<not> py_in start_tag html \<longrightarrow> extract_pre_sections html = [])"
proof (intro conjI impI)
  assume "\<not> py_in end_tag rest"
  then show "extract_pre_sections (before @ start_tag @ rest) = extract_pre_sections before"
    by (rule extract_unclosed)
next
  assume a: "marker_free before \<and> (\<forall>b \<in> set bs. marker_free (fst b) \<and> marker_free (snd b)) \<and>
    \<not> py_in end_tag rest"
  then have "extract_pre_sections (document before bs @ start_tag @ rest) =
      extract_pre_sections (document before bs)"
    by (intro extract_unclosed) simp
  also from a have "\<dots> = map (\<lambda>b. py_strip (fst b)) bs"
    by (intro extract_document) (auto simp: marker_free_def)
  finally show "extract_pre_sections (document before bs @ start_tag @ rest) =
      map (\<lambda>b. py_strip (fst b)) bs" .
next
  assume "\<not> py_in start_tag html"
  then show "extract_pre_sections html = []"
    by (simp add: extract_pre_sections_def py_find_0_absent)
qed

theorem unclosed_start_marker_witness:
  "\<not> py_in end_tag '' 34 </html>'' \<and>
   marker_free ''<html>'' \<and>
   marker_free '' 12 '' \<and> marker_free ''<hr>'' \<and>
   document ''<html>'' [('' 12 '', ''<hr>'')] @ start_tag @ '' 34 </html>'' =
     ''<html><pre> 12 </pre><hr><pre> 34 </html>'' \<and>
   extract_pre_sections (document ''<html>'' [('' 12 '', ''<hr>'')] @ start_tag @ '' 34 </html>'') =
     extract_pre_sections (document ''<html>'' [('' 12 '', ''<hr>'')]) \<and>
   extract_pre_sections (document ''<html>'' [('' 12 '', ''<hr>'')] @ start_tag @ '' 34 </html>'') =
     [''12''] \<and>
   \<not> py_in start_tag ''<html> 12 </pre></html>'' \<and>
   extract_pre_sections ''<html> 12 </pre></html>'' = []"
proof -
  let ?bs = "[('' 12 '', ''<hr>'')]"
  have f: "marker_free '' 12 ''" "marker_free ''<hr>''"
    by code_simp+
  then have h: "\<not> py_in end_tag '' 34 </html>''" "marker_free ''<html>''"
    "\<forall>b \<in> set ?bs. marker_free (fst b) \<and> marker_free (snd b)"
    "\<not> py_in start_tag ''<html> 12 </pre></html>''"
    by (code_simp, code_simp, simp, code_simp)
  have d: "document ''<html>'' ?bs @ start_tag @ '' 34 </html>'' =
     ''<html><pre> 12 </pre><hr><pre> 34 </html>''"
    by code_simp
  have v: "map (\<lambda>b. py_strip (fst b)) ?bs = [''12'']"
    by code_simp
  note u = unclosed_start_marker [of "'' 34 </html>''" _ ?bs "''<html> 12 </pre></html>''"]
  from u [of "document ''<html>'' ?bs"] h(1)
  have a: "extract_pre_sections (document ''<html>'' ?bs @ start_tag @ '' 34 </html>'') =
     extract_pre_sections (document ''<html>'' ?bs)"
    by blast
  from u [of "''<html>''"] h
  have b: "extract_pre_sections (document ''<html>'' ?bs @ start_tag @ '' 34 </html>'') = [''12'']"
    unfolding v by blast
  from u [of "''<html>''"] h(4)
  have c: "extract_pre_sections ''<html> 12 </pre></html>'' = []"
    by blast
  from h(1,2,4) f d a b c show ?thesis
    by blast
qed

section \<open>Termination of the scan loop\<close>

text \<open>
  Claim C9. \<open>extract_pre_sections\<close> terminates on every input: every argument of the
  scan loop is in the domain on which its recursion is well-founded. In an iteration
  (\<open>start\<close> is a position where the start marker was found, and the end marker is found
  at \<open>end_pos\<close>) the end marker lies strictly after the start marker, and the next start
  marker, when there is one, lies strictly after \<open>end_pos\<close>.
\<close>

theorem scan_terminates_and_advances:
  "extract_loop_dom (html, start, pre_sections) \<and>
   (start = py_find html start_tag k \<and> start \<noteq> - 1 \<and>
    end_pos = py_find html end_tag start \<and> end_pos \<noteq> - 1 \<longrightarrow>
      start < end_pos \<and>
      (py_find html start_tag end_pos \<noteq> - 1 \<longrightarrow> end_pos < py_find html start_tag end_pos))"
proof (intro conjI impI)
  show "extract_loop_dom (html, start, pre_sections)"
    by (rule extract_loop_total)
next
  assume a: "start = py_find html start_tag k \<and> start \<noteq> - 1 \<and>
    end_pos = py_find html end_tag start \<and> end_pos \<noteq> - 1"
  from a have s: "start = py_find html start_tag k" and "py_find html start_tag k \<noteq> - 1"
    by auto
  from this(2) obtain p where p: "py_find html start_tag k = int p" "prefix start_tag (drop p html)"
    by (rule py_find_found)
  then obtain y where y: "drop p html = start_tag @ y"
    by (auto simp: prefix_def)
  from a have e: "end_pos = py_find html end_tag start" and "py_find html end_tag start \<noteq> - 1"
    by auto
  from this(2) obtain i where i: "find_first end_tag (drop (scan_pos html start) html) = Some i"
    "py_find html end_tag start = int (scan_pos html start + i)"
    "prefix end_tag (drop (scan_pos html start + i) html)"
    by (rule py_find_found)
  from s p(1) have sp: "scan_pos html start = p" by simp
  from i(1) y have "5 \<le> i"
    unfolding sp by (auto simp: find_first_end_in_start)
  with i(2) e s p(1) sp show "start < end_pos" by simp
  assume "py_find html start_tag end_pos \<noteq> - 1"
  then obtain j where j: "find_first start_tag (drop (scan_pos html end_pos) html) = Some j"
    "py_find html start_tag end_pos = int (scan_pos html end_pos + j)"
    by (rule py_find_found)
  from i(3) obtain z where "drop (p + i) html = end_tag @ z"
    unfolding sp by (auto simp: prefix_def)
  moreover from e i(2) sp have "scan_pos html end_pos = p + i" by simp
  ultimately have "6 \<le> j"
    using j(1) by (auto simp: find_first_start_in_end)
  with j(2) e i(2) sp show "end_pos < py_find html start_tag end_pos" by simp
qed

theorem scan_terminates_and_advances_witness:
  "extract_loop_dom (''<pre>a</pre><pre>b</pre>'', 0, []) \<and>
   py_find ''<pre>a</pre><pre>b</pre>'' start_tag 0 = 0 \<and>
   py_find ''<pre>a</pre><pre>b</pre>'' end_tag 0 = 6 \<and>
   py_find ''<pre>a</pre><pre>b</pre>'' start_tag 6 = 12 \<and>
   (0::int) < 6 \<and> (6::int) < 12"
proof -
  have h: "py_find ''<pre>a</pre><pre>b</pre>'' start_tag 0 = 0"
    "py_find ''<pre>a</pre><pre>b</pre>'' end_tag 0 = 6"
    "py_find ''<pre>a</pre><pre>b</pre>'' start_tag 6 = 12"
    by code_simp+
  from scan_terminates_and_advances [of "''<pre>a</pre><pre>b</pre>''" 0 "[]" 0 6] h
  show ?thesis by simp
qed

section \<open>The identifier of a line\<close>

text \<open>
  Claim C2, as amended. On a line that contains the anchor open, where the double quote and
  \<open>>\<close> do not occur before the end of the anchor open and \<open></a>\<close> does not occur
  before the identifier starts, the identifier is the whitespace-trimmed text that the
  specification describes. (As stated the claim fails: the program looks for the double
  quote and \<open>>\<close> from the start of the line, and it trims the text.)
\<close>

theorem identifier_between_anchor_tags:
  assumes "py_in anchor_open line"
    and "py_find line anchor_open 0 + int (length anchor_open) \<le> py_find line href_close 0"
    and "start_link line \<le> end_link line"
  shows "cik line = py_strip (spec_cik line)"
proof -
  let ?a = "py_find line anchor_open 0"
  from assms(1) have "0 \<le> ?a"
    by (auto simp: py_find_0 py_in_def split: option.splits)
  with assms(2) have q: "py_find line href_close (?a + int (length anchor_open)) = py_find line href_close 0"
    by (intro py_find_from_before) simp_all
  from start_link_pos [of line] assms(3)
  have "py_find line anchor_close (start_link line) = py_find line anchor_close 0"
    by (intro py_find_from_before) (simp_all add: end_link_def)
  with q show ?thesis
    by (simp add: cik_def spec_cik_def Let_def start_link_def end_link_def)
qed

theorem identifier_between_anchor_tags_witness:
  "py_in anchor_open line_regular \<and>
   py_find line_regular anchor_open 0 + int (length anchor_open) \<le> py_find line_regular href_close 0 \<and>
   start_link line_regular \<le> end_link line_regular \<and>
   spec_cik line_regular = ''123'' \<and> cik line_regular = ''123''"
proof -
  have h: "py_in anchor_open line_regular"
    "py_find line_regular anchor_open 0 + int (length anchor_open) \<le> py_find line_regular href_close 0"
    "start_link line_regular \<le> end_link line_regular"
    by code_simp+
  have v: "spec_cik line_regular = ''123''" "py_strip ''123'' = ''123''"
    by code_simp+
  from identifier_between_anchor_tags [OF h] h v show ?thesis
    by simp
qed

theorem identifier_early_quote_counterexample:
  "py_in anchor_open line_early_quote \<and> py_in anchor_close line_early_quote \<and>
   spec_cik line_early_quote = ''123'' \<and>
   cik line_early_quote = ''<a href='' @ [CHR 0x22] @ ''u'' @ [CHR 0x22] @ ''>123'' \<and>
   cik line_early_quote \<noteq> spec_cik line_early_quote \<and>
   py_in anchor_open line_padded \<and> py_in anchor_close line_padded \<and>
   spec_cik line_padded = '' 123 '' \<and> cik line_padded = ''123''"
  by code_simp

section \<open>A line without the closing tag\<close>

text \<open>
  Claim C3, as amended. On a line that contains the anchor open and no \<open></a>\<close>, the
  parser computes \<open>end_link = -1\<close>; the identifier is the whitespace-trimmed slice from
  \<open>start_link\<close> up to the position before the last character; the label is the text from
  index 3 on, trimmed; and the entry is inserted. (As stated the claim fails: the identifier
  is trimmed.)
\<close>

theorem missing_anchor_close:
  assumes "py_in anchor_open line" and "\<not> py_in anchor_close line"
  shows "end_link line = - 1 \<and>
         cik line = py_strip (py_slice line (start_link line) (- 1)) \<and>
         py_slice line (start_link line) (- 1) =
           take (length line - 1 - nat (start_link line)) (drop (nat (start_link line)) line) \<and>
         company_start line = py_strip (drop 3 line) \<and>
         parse_line data line = dict_set data (cik line) (company_start line) \<and>
         map_of (parse_line data line) (cik line) = Some (company_start line)"
proof -
  from assms(2) have e: "end_link line = - 1"
    by (simp add: end_link_def py_find_0_absent)
  from py_in_length [OF assms(1)] have n: "9 \<le> length line"
    by (simp add: anchor_open_def)
  from start_link_pos [of line] n
  have s: "py_slice line (start_link line) (- 1) =
           take (length line - 1 - nat (start_link line)) (drop (nat (start_link line)) line)"
    by (auto simp: py_slice_def slice_bound_def Let_def min_def nat_diff_distrib)
  from n have c: "company_start line = py_strip (drop 3 line)"
    by (simp add: company_start_def e py_slice_from_def slice_bound_def)
  from assms(1) have p: "parse_line data line = dict_set data (cik line) (company_start line)"
    by (simp add: parse_line_def)
  show ?thesis
    using s c p by (simp add: cik_def e map_of_dict_set)
qed

theorem missing_anchor_close_witness:
  "py_in anchor_open line_no_close \<and> \<not> py_in anchor_close line_no_close \<and>
   end_link line_no_close = - 1 \<and> cik line_no_close = ''7'' \<and>
   company_start line_no_close = ''href='' @ [CHR 0x22] @ ''x'' @ [CHR 0x22] @ ''> 7 y'' \<and>
   parse_line [] line_no_close = [(''7'', ''href='' @ [CHR 0x22] @ ''x'' @ [CHR 0x22] @ ''> 7 y'')]"
proof -
  have h: "py_in anchor_open line_no_close" "\<not> py_in anchor_close line_no_close"
    by code_simp+
  have v: "py_strip (py_slice line_no_close (start_link line_no_close) (- 1)) = ''7''"
    "py_strip (drop 3 line_no_close) = ''href='' @ [CHR 0x22] @ ''x'' @ [CHR 0x22] @ ''> 7 y''"
    by code_simp+
  from missing_anchor_close [OF h, of "[]"] h v show ?thesis
    by simp
qed

theorem untrimmed_identifier_counterexample:
  "py_in anchor_open line_no_close \<and> \<not> py_in anchor_close line_no_close \<and>
   end_link line_no_close = - 1 \<and>
   py_slice line_no_close (start_link line_no_close) (- 1) = '' 7 '' \<and>
   cik line_no_close = ''7'' \<and>
   cik line_no_close \<noteq> py_slice line_no_close (start_link line_no_close) (- 1)"
  by code_simp

section \<open>Duplicate identifiers\<close>

text \<open>
  Claim C4. When an identifier \<open>k\<close> is extracted from one or more lines of a block, the
  mapping has exactly one entry for \<open>k\<close>, and its label is the one of the last such line.
\<close>

theorem last_label_wins:
  assumes "ls = filter (\<lambda>l. py_in anchor_open l \<and> cik l = k) (split_newline block)"
    and "ls \<noteq> []"
  shows "length (filter (\<lambda>p. fst p = k) (parse_table block)) = 1 \<and>
         map_of (parse_table block) k = Some (company_start (last ls))"
proof -
  have d: "distinct (map fst (parse_table block))"
    unfolding parse_table_def by (rule distinct_foldl_parse_line) simp
  from assms have m: "map_of (parse_table block) k = Some (company_start (last ls))"
    unfolding parse_table_def map_of_foldl_parse_line by (simp split: list.splits)
  from one_entry_per_key [OF d m] m show ?thesis by simp
qed

theorem last_label_wins_witness:
  "filter (\<lambda>l. py_in anchor_open l \<and> cik l = ''123'') (split_newline table_dup) =
     [''<a href='' @ [CHR 0x22] @ ''u'' @ [CHR 0x22] @ ''>123</a> First Co'',
      ''<a href='' @ [CHR 0x22] @ ''w'' @ [CHR 0x22] @ ''>123</a> Second Co''] \<and>
   length (filter (\<lambda>p. fst p = ''123'') (parse_table table_dup)) = 1 \<and>
   map_of (parse_table table_dup) ''123'' = Some ''Second Co'' \<and>
   parse_table table_dup = [(''123'', ''Second Co''), (''45'', ''Other'')]"
proof -
  have f: "filter (\<lambda>l. py_in anchor_open l \<and> cik l = ''123'') (split_newline table_dup) =
     [''<a href='' @ [CHR 0x22] @ ''u'' @ [CHR 0x22] @ ''>123</a> First Co'',
      ''<a href='' @ [CHR 0x22] @ ''w'' @ [CHR 0x22] @ ''>123</a> Second Co'']"
    by code_simp
  have c: "company_start (''<a href='' @ [CHR 0x22] @ ''w'' @ [CHR 0x22] @ ''>123</a> Second Co'') = ''Second Co''"
    by code_simp
  have t: "parse_table table_dup = [(''123'', ''Second Co''), (''45'', ''Other'')]"
    by code_simp
  from last_label_wins [OF f [symmetric]] f c t show ?thesis
    by simp
qed

section \<open>The missing-table diagnostic\<close>

text \<open>
  Claim C6. With fewer than two blocks the driver prints the single line of the
  missing-table diagnostic, whatever the blocks contain; with at least two it prints the
  header and one line per entry of the mapping parsed from the block at index 1.
\<close>

theorem missing_table_or_results:
  "(length (extract_pre_sections html) < 2 \<longrightarrow>
      process_entry entry (Body html) =
        [''Error: Missing expected table for '' @ [CHR 0x27] @ entry @ [CHR 0x27] @ ''.'']) \<and>
   (2 \<le> length (extract_pre_sections html) \<longrightarrow>
      process_entry entry (Body html) =
        (newline # ''Results for '' @ [CHR 0x27] @ entry @ [CHR 0x27] @ '':'')
        # map (\<lambda>(c, company). format_record c company)
            (parse_table (extract_pre_sections html ! 1)))"
  by (simp add: process_entry_def process_html_def quoted_def Let_def)

theorem missing_table_or_results_witness:
  "length (extract_pre_sections doc_one_block) < 2 \<and>
   process_entry ''Acme'' (Body doc_one_block) =
     [''Error: Missing expected table for '' @ [CHR 0x27] @ ''Acme'' @ [CHR 0x27] @ ''.''] \<and>
   2 \<le> length (extract_pre_sections doc_two_blocks) \<and>
   process_entry ''Acme'' (Body doc_two_blocks) =
     [newline # ''Results for '' @ [CHR 0x27] @ ''Acme'' @ [CHR 0x27] @ '':'',
      ''123       : Example Co'', ''45        : Other'']"
proof -
  have one: "length (extract_pre_sections doc_one_block) < 2"
    by code_simp
  have two: "2 \<le> length (extract_pre_sections doc_two_blocks)"
    by code_simp
  have tab: "map (\<lambda>(c, company). format_record c company)
       (parse_table (extract_pre_sections doc_two_blocks ! 1)) =
     [''123       : Example Co'', ''45        : Other'']"
    by code_simp
  from missing_table_or_results [of doc_one_block "''Acme''"]
    missing_table_or_results [of doc_two_blocks "''Acme''", unfolded tab]
    one two
  show ?thesis
    by simp
qed

section \<open>The format of a record line\<close>

text \<open>
  Claim C7, as amended. Every record line is the identifier, left-aligned and padded with
  spaces on the right to at least 10 characters, never truncated, then a colon, a space and
  the label. (As stated the claim fails: an identifier of 11 characters is printed whole.)
\<close>

theorem record_line_left_aligned:
  "2 \<le> length (extract_pre_sections html) \<Longrightarrow>
   tl (process_entry entry (Body html)) =
     map (\<lambda>(c, company). c @ replicate (10 - length c) CHR '' '' @ '': '' @ company)
       (parse_table (extract_pre_sections html ! 1))"
  by (auto simp: process_entry_def process_html_def Let_def format_record_def py_ljust_def)

theorem record_line_left_aligned_witness:
  "2 \<le> length (extract_pre_sections doc_long_cik) \<and>
   tl (process_entry ''Acme'' (Body doc_long_cik)) = [''12345678901: X'']"
proof -
  have two: "2 \<le> length (extract_pre_sections doc_long_cik)"
    by code_simp
  have tab: "map (\<lambda>(c, company). c @ replicate (10 - length c) CHR '' '' @ '': '' @ company)
       (parse_table (extract_pre_sections doc_long_cik ! 1)) = [''12345678901: X'']"
    by code_simp
  from record_line_left_aligned [OF two, of "''Acme''", unfolded tab] two
  show ?thesis by simp
qed

theorem record_line_truncated_counterexample:
  "parse_table (extract_pre_sections doc_long_cik ! 1) = [(''12345678901'', ''X'')] \<and>
   tl (process_entry ''Acme'' (Body doc_long_cik)) \<noteq> [spec_record_line ''12345678901'' ''X'']"
  by code_simp

section \<open>Errors are handled per query\<close>

lemma main_loop_append:
  "main_loop fetch (xs @ ys) =
     (case snd (main_loop fetch xs) of
        None \<Rightarrow> (fst (main_loop fetch xs) @ fst (main_loop fetch ys), snd (main_loop fetch ys))
      | Some exc \<Rightarrow> main_loop fetch xs)"
  by (induction xs) (auto split: outcome.splits option.splits)

lemma main_loop_handled:
  "\<forall>e \<in> set entries. \<exists>r. fetch e = Handled r \<Longrightarrow> snd (main_loop fetch entries) = None"
  by (induction entries) (auto split: outcome.splits)

text \<open>
  Claim C8, as amended. Every error derived from \<open>Exception\<close> that the request of a query
  raises (an HTTP status error, a transport error, any other \<open>Exception\<close>) is caught for
  that query and reported in one line with the query name and the detail of the error, and
  the loop goes on with the next query: a run in which every request returns or raises
  such an error is not aborted. An exception that is not derived from \<open>Exception\<close> is not
  caught: it ends the run, and the queries after it are not processed. (As stated the claim
  fails: not every exception is caught.)
\<close>

theorem errors_reported_per_query:
  "(snd (main_loop fetch before) = None \<and> fetch entry = Handled r \<longrightarrow>
      main_loop fetch (before @ entry # rest) =
        (fst (main_loop fetch before) @ process_entry entry r @ fst (main_loop fetch rest),
         snd (main_loop fetch rest))) \<and>
   ((\<forall>e \<in> set entries. \<exists>r. fetch e = Handled r) \<longrightarrow> snd (main_loop fetch entries) = None) \<and>
   (snd (main_loop fetch before) = None \<and> fetch entry = Uncaught exc \<longrightarrow>
      main_loop fetch (before @ entry # rest) = (fst (main_loop fetch before), Some exc)) \<and>
   process_entry entry (HTTPError code reason) =
     [''HTTP Error for '' @ [CHR 0x27] @ entry @ [CHR 0x27] @ '': '' @ str_int code @ '' '' @ reason] \<and>
   process_entry entry (URLError reason) =
     [''URL Error for '' @ [CHR 0x27] @ entry @ [CHR 0x27] @ '': '' @ reason] \<and>
   process_entry entry (OtherError msg) =
     [''Unexpected error for '' @ [CHR 0x27] @ entry @ [CHR 0x27] @ '': '' @ msg]"
proof (intro conjI impI)
  assume "snd (main_loop fetch before) = None \<and> fetch entry = Handled r"
  then show "main_loop fetch (before @ entry # rest) =
        (fst (main_loop fetch before) @ process_entry entry r @ fst (main_loop fetch rest),
         snd (main_loop fetch rest))"
    by (simp add: main_loop_append)
next
  assume "\<forall>e \<in> set entries. \<exists>r. fetch e = Handled r"
  then show "snd (main_loop fetch entries) = None"
    by (rule main_loop_handled)
next
  assume "snd (main_loop fetch before) = None \<and> fetch entry = Uncaught exc"
  then show "main_loop fetch (before @ entry # rest) = (fst (main_loop fetch before), Some exc)"
    by (simp add: main_loop_append)
qed (simp_all add: process_entry_def quoted_def)

theorem errors_reported_per_query_witness:
  "snd (main_loop fetch_http_error [''ABC'']) = None \<and>
   fetch_http_error ''Pulse'' = Handled (HTTPError 404 ''Not Found'') \<and>
   main_loop fetch_http_error ([''ABC''] @ ''Pulse'' # [''Apple'']) =
     ([''Error: Missing expected table for '' @ [CHR 0x27] @ ''ABC'' @ [CHR 0x27] @ ''.'',
       ''HTTP Error for '' @ [CHR 0x27] @ ''Pulse'' @ [CHR 0x27] @ '': 404 Not Found'',
       ''Error: Missing expected table for '' @ [CHR 0x27] @ ''Apple'' @ [CHR 0x27] @ ''.''],
      None) \<and>
   snd (main_loop fetch_http_error [''ABC'', ''Pulse'', ''Apple'']) = None \<and>
   snd (main_loop fetch_interrupted [''ABC'']) = None \<and>
   fetch_interrupted ''Pulse'' = Uncaught ''KeyboardInterrupt'' \<and>
   main_loop fetch_interrupted ([''ABC''] @ ''Pulse'' # [''Apple'']) =
     ([''Error: Missing expected table for '' @ [CHR 0x27] @ ''ABC'' @ [CHR 0x27] @ ''.''],
      Some ''KeyboardInterrupt'')"
proof -
  have a: "main_loop fetch_http_error [''ABC''] =
      ([''Error: Missing expected table for '' @ [CHR 0x27] @ ''ABC'' @ [CHR 0x27] @ ''.''], None)"
    "main_loop fetch_http_error [''Apple''] =
      ([''Error: Missing expected table for '' @ [CHR 0x27] @ ''Apple'' @ [CHR 0x27] @ ''.''], None)"
    "main_loop fetch_interrupted [''ABC''] =
      ([''Error: Missing expected table for '' @ [CHR 0x27] @ ''ABC'' @ [CHR 0x27] @ ''.''], None)"
    by code_simp+
  have c: "str_int 404 = ''404''"
    by code_simp
  have g1: "snd (main_loop fetch_http_error [''ABC'']) = None"
    and g5: "snd (main_loop fetch_interrupted [''ABC'']) = None"
    unfolding a by simp_all
  have g2: "fetch_http_error ''Pulse'' = Handled (HTTPError 404 ''Not Found'')"
    and g6: "fetch_interrupted ''Pulse'' = Uncaught ''KeyboardInterrupt''"
    by (simp_all add: fetch_http_error_def fetch_interrupted_def)
  have h: "\<forall>e \<in> set [''ABC'', ''Pulse'', ''Apple'']. \<exists>r. fetch_http_error e = Handled r"
    by (simp add: fetch_http_error_def)
  note t = errors_reported_per_query [of _ "[''ABC'']" "''Pulse''" _ "[''Apple'']"
      "[''ABC'', ''Pulse'', ''Apple'']" _ 404 "''Not Found''"]
  note t1 = t [of fetch_http_error "HTTPError 404 ''Not Found''"]
  from t1 g1 g2
  have 1: "main_loop fetch_http_error ([''ABC''] @ ''Pulse'' # [''Apple'']) =
      (fst (main_loop fetch_http_error [''ABC'']) @
       process_entry ''Pulse'' (HTTPError 404 ''Not Found'') @
       fst (main_loop fetch_http_error [''Apple'']), snd (main_loop fetch_http_error [''Apple'']))"
    by blast
  from t1
  have p: "process_entry ''Pulse'' (HTTPError 404 ''Not Found'') =
      [''HTTP Error for '' @ [CHR 0x27] @ ''Pulse'' @ [CHR 0x27] @ '': '' @ str_int 404 @ '' '' @ ''Not Found'']"
    by blast
  have g3: "main_loop fetch_http_error ([''ABC''] @ ''Pulse'' # [''Apple'']) =
     ([''Error: Missing expected table for '' @ [CHR 0x27] @ ''ABC'' @ [CHR 0x27] @ ''.'',
       ''HTTP Error for '' @ [CHR 0x27] @ ''Pulse'' @ [CHR 0x27] @ '': 404 Not Found'',
       ''Error: Missing expected table for '' @ [CHR 0x27] @ ''Apple'' @ [CHR 0x27] @ ''.''],
      None)"
    unfolding 1 p a c by simp
  from t1 h have g4: "snd (main_loop fetch_http_error [''ABC'', ''Pulse'', ''Apple'']) = None"
    by blast
  from t [of fetch_interrupted _ "''KeyboardInterrupt''"] g5 g6
  have 3: "main_loop fetch_interrupted ([''ABC''] @ ''Pulse'' # [''Apple'']) =
      (fst (main_loop fetch_interrupted [''ABC'']), Some ''KeyboardInterrupt'')"
    by blast
  have g7: "main_loop fetch_interrupted ([''ABC''] @ ''Pulse'' # [''Apple'']) =
     ([''Error: Missing expected table for '' @ [CHR 0x27] @ ''ABC'' @ [CHR 0x27] @ ''.''],
      Some ''KeyboardInterrupt'')"
    unfolding 3 a by simp
  from g1 g2 g3 g4 g5 g6 g7 show ?thesis
    by blast
qed

theorem uncaught_exception_counterexample:
  "main_loop fetch_interrupted [''ABC'', ''Pulse'', ''Apple''] =
     ([''Error: Missing expected table for '' @ [CHR 0x27] @ ''ABC'' @ [CHR 0x27] @ ''.''],
      Some ''KeyboardInterrupt'') \<and>
   main_loop fetch_interrupted [''Apple''] =
     ([''Error: Missing expected table for '' @ [CHR 0x27] @ ''Apple'' @ [CHR 0x27] @ ''.''], None)"
  by code_simp

section \<open>A line without the end of the opening tag\<close>

text \<open>
  Claim C10. On a line that contains the anchor open but not the double quote followed by
  \<open>>\<close>, the identifier starts at index 1: it is the slice from index 1 up to the
  position of \<open></a>\<close> (or up to the position before the last character when \<open></a>\<close>
  is absent too), trimmed, and the entry is inserted.
\<close>

theorem missing_href_close:
  assumes "py_in anchor_open line" and "\<not> py_in href_close line"
  shows "start_link line = 1 \<and>
         cik line = py_strip (py_slice line 1 (end_link line)) \<and>
         (\<forall>e. find_first anchor_close line = Some e \<longrightarrow>
            end_link line = int e \<and> py_slice line 1 (end_link line) = take (e - 1) (drop 1 line)) \<and>
         (\<not> py_in anchor_close line \<longrightarrow>
            end_link line = - 1 \<and>
            py_slice line 1 (end_link line) = take (length line - 2) (drop 1 line)) \<and>
         parse_line data line = dict_set data (cik line) (company_start line) \<and>
         map_of (parse_line data line) (cik line) = Some (company_start line)"
proof -
  from assms(2) have s: "start_link line = 1"
    by (simp add: start_link_def py_find_0_absent)
  from py_in_length [OF assms(1)] have n: "9 \<le> length line"
    by (simp add: anchor_open_def)
  have a: "find_first anchor_close line = Some e \<Longrightarrow>
      end_link line = int e \<and> py_slice line 1 (end_link line) = take (e - 1) (drop 1 line)" for e
    using n find_first_Some [of anchor_close line e]
    by (auto simp: end_link_def py_find_0 py_slice_def slice_bound_def Let_def min_def)
  have b: "\<not> py_in anchor_close line \<Longrightarrow>
      end_link line = - 1 \<and> py_slice line 1 (end_link line) = take (length line - 2) (drop 1 line)"
    using n by (auto simp: end_link_def py_find_0_absent py_slice_def slice_bound_def Let_def
        nat_diff_distrib eval_nat_numeral)
  from assms(1) have p: "parse_line data line = dict_set data (cik line) (company_start line)"
    by (simp add: parse_line_def)
  show ?thesis
    using a b p by (auto simp: cik_def s map_of_dict_set)
qed

theorem missing_href_close_witness:
  "py_in anchor_open line_no_href_close \<and> \<not> py_in href_close line_no_href_close \<and>
   start_link line_no_href_close = 1 \<and>
   cik line_no_href_close = ''a href='' @ [CHR 0x22] @ ''x> 99'' \<and>
   parse_line [] line_no_href_close = [(''a href='' @ [CHR 0x22] @ ''x> 99'', ''Some Co'')]"
proof -
  have h: "py_in anchor_open line_no_href_close" "\<not> py_in href_close line_no_href_close"
    by code_simp+
  have v: "py_strip (py_slice line_no_href_close 1 (end_link line_no_href_close))
      = ''a href='' @ [CHR 0x22] @ ''x> 99''"
    "company_start line_no_href_close = ''Some Co''"
    by code_simp+
  from missing_href_close [OF h, of "[]"] h v show ?thesis
    by simp
qed

end
